theory Spec2Isabelle
  imports Complex_Main "HOL-Library.Multiset" "HOL-Library.Sublist" "HOL-Library.Product_Lexorder"
begin

section \<open>JavaScript numbers\<close>

text \<open>
  A JavaScript number is a finite value, one of the two infinities, or NaN. Finite values
  are kept as exact rationals: rounding to 64-bit binary floating point, overflow of a
  finite operation to an infinity, and the sign of zero are not part of this model.
  The special values follow IEEE 754 as the language prescribes: NaN is absorbing for
  arithmetic and makes every comparison false.
\<close>

datatype jsnum = Fin rat | PInf | NInf | NaN

fun js_neg :: "jsnum \<Rightarrow> jsnum" where
  "js_neg (Fin a) = Fin (- a)"
| "js_neg PInf = NInf"
| "js_neg NInf = PInf"
| "js_neg NaN = NaN"

fun js_add :: "jsnum \<Rightarrow> jsnum \<Rightarrow> jsnum" where
  "js_add (Fin a) (Fin b) = Fin (a + b)"
| "js_add NaN _ = NaN"
| "js_add _ NaN = NaN"
| "js_add PInf NInf = NaN"
| "js_add NInf PInf = NaN"
| "js_add PInf _ = PInf"
| "js_add _ PInf = PInf"
| "js_add NInf _ = NInf"
| "js_add _ NInf = NInf"

definition js_sub :: "jsnum \<Rightarrow> jsnum \<Rightarrow> jsnum" where
  "js_sub a b = js_add a (js_neg b)"

text \<open>\<open>a / b\<close>; a zero divisor is the positive zero.\<close>

fun js_div :: "jsnum \<Rightarrow> jsnum \<Rightarrow> jsnum" where
  "js_div NaN _ = NaN"
| "js_div _ NaN = NaN"
| "js_div (Fin a) (Fin b) =
     (if b \<noteq> 0 then Fin (a / b)
      else if 0 < a then PInf else if a < 0 then NInf else NaN)"
| "js_div (Fin a) _ = Fin 0"
| "js_div PInf (Fin b) = (if b < 0 then NInf else PInf)"
| "js_div NInf (Fin b) = (if b < 0 then PInf else NInf)"
| "js_div _ _ = NaN"

text \<open>\<open>a < b\<close> and \<open>a <= b\<close>.\<close>

fun js_lt :: "jsnum \<Rightarrow> jsnum \<Rightarrow> bool" where
  "js_lt (Fin a) (Fin b) = (a < b)"
| "js_lt NaN _ = False"
| "js_lt _ NaN = False"
| "js_lt NInf NInf = False"
| "js_lt NInf _ = True"
| "js_lt PInf _ = False"
| "js_lt _ PInf = True"
| "js_lt _ NInf = False"

definition js_le :: "jsnum \<Rightarrow> jsnum \<Rightarrow> bool" where
  "js_le a b = (a \<noteq> NaN \<and> (js_lt a b \<or> a = b))"

text \<open>\<open>Math.max\<close> and \<open>Math.min\<close> of two arguments.\<close>

definition js_max :: "jsnum \<Rightarrow> jsnum \<Rightarrow> jsnum" where
  "js_max a b = (if a = NaN \<or> b = NaN then NaN else if js_lt a b then b else a)"

definition js_min :: "jsnum \<Rightarrow> jsnum \<Rightarrow> jsnum" where
  "js_min a b = (if a = NaN \<or> b = NaN then NaN else if js_lt b a then b else a)"

text \<open>\<open>Number.isFinite\<close> on a number, truthiness of a number, and \<open>a || b\<close>.\<close>

fun isFinite :: "jsnum \<Rightarrow> bool" where
  "isFinite (Fin _) = True"
| "isFinite _ = False"

fun truthy_num :: "jsnum \<Rightarrow> bool" where
  "truthy_num (Fin a) = (a \<noteq> 0)"
| "truthy_num NaN = False"
| "truthy_num _ = True"

definition js_or :: "jsnum \<Rightarrow> jsnum \<Rightarrow> jsnum" where
  "js_or a b = (if truthy_num a then a else b)"

text \<open>\<open>Math.round\<close>: the nearest integer, a tie going up.\<close>

fun js_round :: "jsnum \<Rightarrow> jsnum" where
  "js_round (Fin a) = Fin (of_int \<lfloor>a + 1 / 2\<rfloor>)"
| "js_round x = x"

section \<open>JSON values as the handlers and normalisers receive them\<close>

datatype json =
    JUndefined
  | JNull
  | JBool bool
  | JNum jsnum
  | JStr string
  | JArr "json list"
  | JObj "(string \<times> json) list"

datatype error = TypeError | Error string

section \<open>The planner (frontend component)\<close>

text \<open>The field \<open>id\<close> is written \<open>id'\<close>, \<open>id\<close> being the identity function of HOL.\<close>

record initiative =
  id' :: jsnum
  title :: string
  effortManDays :: jsnum
  week :: jsnum
  okr :: string
  taskDependencies :: "json list"
  teamDependencies :: "json list"

text \<open>
  \<open>safeWeeks = Number.isFinite(timelineWeeks) && timelineWeeks > 0 ? timelineWeeks : 1\<close>.
  The result is always a finite positive number, so it is returned as a rational.
\<close>

definition safeWeeks :: "jsnum \<Rightarrow> rat" where
  "safeWeeks timelineWeeks =
     (if isFinite timelineWeeks \<and> js_lt (Fin 0) timelineWeeks
      then (case timelineWeeks of Fin q \<Rightarrow> q | _ \<Rightarrow> 1)
      else 1)"

definition weeklyCapacity :: "jsnum \<Rightarrow> jsnum \<Rightarrow> jsnum" where
  "weeklyCapacity manDays timelineWeeks = js_div manDays (Fin (safeWeeks timelineWeeks))"

text \<open>
  \<open>byWeek\<close> is an object keyed by week number. A property key is the number's string
  form, which is one-to-one on finite numbers, so the keys are modelled as the numbers
  themselves; no key is ever created for an infinity or NaN.
\<close>

type_synonym weeks = "rat \<rightharpoonup> initiative list"

record plan =
  byWeek :: weeks
  backlog :: "initiative list"

text \<open>\<open>for (let w = 1; w <= safeWeeks; w++) byWeek[w] = []\<close>\<close>

function init_weeks :: "rat \<Rightarrow> rat \<Rightarrow> weeks \<Rightarrow> weeks" where
  "init_weeks w sw bw = (if w \<le> sw then init_weeks (w + 1) sw (bw(w \<mapsto> [])) else bw)"
  by pat_completeness auto
termination
  by (relation "measure (\<lambda>(w, sw, bw). nat \<lceil>sw - w + 1\<rceil>)") (auto, linarith)

declare init_weeks.simps [simp del]

text \<open>
  The comparator \<open>(a, b) => a.week - b.week || a.id - b.id\<close> and the sort. The language
  requires \<open>Array.prototype.sort\<close> to be stable and to read a NaN from the comparator as
  zero; with a consistent comparator every stable sort gives the same list, and this one
  (insertion, from the right) fixes the result for inconsistent comparators, where the
  language leaves the order to the implementation.
\<close>

definition compare_initiatives :: "initiative \<Rightarrow> initiative \<Rightarrow> jsnum" where
  "compare_initiatives a b = js_or (js_sub (week a) (week b)) (js_sub (id' a) (id' b))"

fun insert_sorted :: "initiative \<Rightarrow> initiative list \<Rightarrow> initiative list" where
  "insert_sorted x [] = [x]"
| "insert_sorted x (y # ys) =
     (if js_lt (Fin 0) (compare_initiatives x y) then y # insert_sorted x ys else x # y # ys)"

definition sort_initiatives :: "initiative list \<Rightarrow> initiative list" where
  "sort_initiatives xs = foldr insert_sorted xs []"

text \<open>\<open>byWeek[w].reduce((s, i) => s + i.effortManDays, 0)\<close>\<close>

definition used_effort :: "initiative list \<Rightarrow> jsnum" where
  "used_effort frs = foldl (\<lambda>s i. js_add s (effortManDays i)) (Fin 0) frs"

text \<open>The loop condition \<open>remaining > 0 && w <= safeWeeks\<close>.\<close>

definition loop_guard :: "rat \<Rightarrow> jsnum \<Rightarrow> jsnum \<Rightarrow> bool" where
  "loop_guard sw remaining w = (js_lt (Fin 0) remaining \<and> js_le w (Fin sw))"

text \<open>
  One run of the body of the \<open>while\<close> loop, giving the new \<open>byWeek\<close>, \<open>remaining\<close> and
  \<open>w\<close>. \<open>byWeek[w]\<close> is \<open>undefined\<close> when the object has no key \<open>w\<close>, and calling
  \<open>reduce\<close> on \<open>undefined\<close> throws a TypeError.
\<close>

definition place_step ::
  "jsnum \<Rightarrow> initiative \<Rightarrow> weeks \<Rightarrow> jsnum \<Rightarrow> jsnum \<Rightarrow> error + (weeks \<times> jsnum \<times> jsnum)" where
  "place_step cap item bw remaining w =
     (case w of
        Fin q \<Rightarrow>
          (case bw q of
             None \<Rightarrow> Inl TypeError
           | Some frs \<Rightarrow>
               let used = used_effort frs;
                   capacityLeft = js_sub cap used
               in if js_le capacityLeft (Fin 0) then Inr (bw, remaining, js_add w (Fin 1))
                  else
                    let effortThisWeek = js_min remaining capacityLeft
                    in Inr (bw(q \<mapsto> frs @ [item\<lparr>effortManDays := effortThisWeek, week := w\<rparr>]),
                            js_sub remaining effortThisWeek,
                            js_add w (Fin 1)))
      | _ \<Rightarrow> Inl TypeError)"

lemma place_step_cursor:
  "place_step cap item bw remaining w = Inr (bw', remaining', w') \<Longrightarrow>
     \<exists>q. w = Fin q \<and> w' = Fin (q + 1)"
  by (cases w) (auto simp: place_step_def Let_def split: option.splits if_splits)

function place_loop ::
  "rat \<Rightarrow> jsnum \<Rightarrow> initiative \<Rightarrow> weeks \<Rightarrow> jsnum \<Rightarrow> jsnum \<Rightarrow> error + (weeks \<times> jsnum)" where
  "place_loop sw cap item bw remaining w =
     (if loop_guard sw remaining w then
        (case place_step cap item bw remaining w of
           Inl e \<Rightarrow> Inl e
         | Inr (bw', remaining', w') \<Rightarrow> place_loop sw cap item bw' remaining' w')
      else Inr (bw, remaining))"
  by pat_completeness auto
termination
proof (relation "measure (\<lambda>(sw, cap, item, bw, remaining, w).
                   case w of Fin q \<Rightarrow> nat \<lceil>sw - q + 1\<rceil> | _ \<Rightarrow> 0)", goal_cases)
  case 1
  show ?case by simp
next
  case (2 sw cap item bw remaining w x2 bw' y remaining' w')
  then obtain q where q: "w = Fin q" "w' = Fin (q + 1)"
    using place_step_cursor by blast
  from 2(1) q have "q \<le> sw" by (auto simp add: loop_guard_def js_le_def)
  then show ?case using q by simp linarith
qed

declare place_loop.simps [simp del]

text \<open>The body of \<open>for (const item of sorted)\<close>, and the loop over the sorted list.\<close>

definition place_item :: "rat \<Rightarrow> jsnum \<Rightarrow> plan \<Rightarrow> initiative \<Rightarrow> error + plan" where
  "place_item sw cap st item =
     (case place_loop sw cap item (byWeek st) (effortManDays item) (js_max (Fin 1) (week item)) of
        Inl e \<Rightarrow> Inl e
      | Inr (bw, remaining) \<Rightarrow>
          Inr (if js_lt (Fin 0) remaining
               then \<lparr>byWeek = bw, backlog = backlog st @ [item]\<rparr>
               else \<lparr>byWeek = bw, backlog = backlog st\<rparr>))"

fun run_items :: "rat \<Rightarrow> jsnum \<Rightarrow> plan \<Rightarrow> initiative list \<Rightarrow> error + plan" where
  "run_items sw cap st [] = Inr st"
| "run_items sw cap st (item # items) =
     (case place_item sw cap st item of
        Inl e \<Rightarrow> Inl e
      | Inr st' \<Rightarrow> run_items sw cap st' items)"

text \<open>The memoised \<open>schedule\<close> of the component, as a function of the state it reads.\<close>

definition schedule :: "initiative list \<Rightarrow> jsnum \<Rightarrow> jsnum \<Rightarrow> error + plan" where
  "schedule initiatives timelineWeeks manDays =
     (let sw = safeWeeks timelineWeeks;
          cap = weeklyCapacity manDays timelineWeeks;
          bw0 = init_weeks 1 sw Map.empty;
          sorted = sort_initiatives initiatives
      in run_items sw cap \<lparr>byWeek = bw0, backlog = []\<rparr> sorted)"

text \<open>\<open>a === b\<close> on numbers.\<close>

definition js_strict_eq :: "jsnum \<Rightarrow> jsnum \<Rightarrow> bool" where
  "js_strict_eq a b = (a = b \<and> a \<noteq> NaN)"

text \<open>\<open>prev.findIndex(pred)\<close>: the first index whose element satisfies \<open>pred\<close>, or -1.\<close>

fun findIndex :: "('a \<Rightarrow> bool) \<Rightarrow> 'a list \<Rightarrow> int" where
  "findIndex pred [] = - 1"
| "findIndex pred (x # xs) =
     (if pred x then 0 else (let r = findIndex pred xs in if r < 0 then - 1 else r + 1))"

text \<open>
  \<open>onDragEnd\<close>, as the new value of the initiative list. \<open>arrayMove\<close> belongs to the
  drag-and-drop library and is a parameter here; \<open>over\<close> is \<open>None\<close> when the event has no
  drop target.
\<close>

definition onDragEnd ::
  "(initiative list \<Rightarrow> int \<Rightarrow> int \<Rightarrow> initiative list) \<Rightarrow> jsnum \<Rightarrow> jsnum option \<Rightarrow>
     initiative list \<Rightarrow> initiative list" where
  "onDragEnd arrayMove active_id over prev =
     (case over of
        None \<Rightarrow> prev
      | Some over_id \<Rightarrow>
          if js_strict_eq active_id over_id then prev
          else
            let oldIndex = findIndex (\<lambda>i. js_strict_eq (id' i) active_id) prev;
                newIndex = findIndex (\<lambda>i. js_strict_eq (id' i) over_id) prev
            in arrayMove prev oldIndex newIndex)"

section \<open>Reading JSON values\<close>

text \<open>
  What the language leaves to the runtime or what lies outside the repository is a field
  of \<open>runtime\<close>: the clock read by \<open>Date.now()\<close> while element \<open>idx\<close> is normalised, the
  number and the string that \<open>Number(v)\<close> and \<open>String(v)\<close> give for a value that is not
  already of that kind, \<open>JSON.parse\<close> of a producer's reply after the code fences are
  removed and the text is trimmed (\<open>None\<close> when it throws), the prompt texts (functions
  of the request body), and the call to the external producer, which gives the parsed
  reply or fails.
\<close>

record runtime =
  clock :: "nat \<Rightarrow> rat"
  text_number :: "json \<Rightarrow> jsnum"
  text_of :: "json \<Rightarrow> string"
  parse_cleaned :: "string \<Rightarrow> json option"
  generate_prompt :: "json \<Rightarrow> string"
  modify_prompt :: "json \<Rightarrow> string"
  call_producer :: "string \<Rightarrow> error + json"

fun truthy :: "json \<Rightarrow> bool" where
  "truthy JUndefined = False"
| "truthy JNull = False"
| "truthy (JBool b) = b"
| "truthy (JNum n) = truthy_num n"
| "truthy (JStr s) = (s \<noteq> [])"
| "truthy (JArr _) = True"
| "truthy (JObj _) = True"

definition Number :: "runtime \<Rightarrow> json \<Rightarrow> jsnum" where
  "Number rt v =
     (case v of
        JUndefined \<Rightarrow> NaN
      | JNull \<Rightarrow> Fin 0
      | JBool b \<Rightarrow> (if b then Fin 1 else Fin 0)
      | JNum n \<Rightarrow> n
      | _ \<Rightarrow> text_number rt v)"

definition String :: "runtime \<Rightarrow> json \<Rightarrow> string" where
  "String rt v = (case v of JStr s \<Rightarrow> s | _ \<Rightarrow> text_of rt v)"

text \<open>
  \<open>v.k\<close> for the keys read here: a TypeError on \<open>null\<close> and \<open>undefined\<close>, the member of
  an object (the last one of that name), \<open>undefined\<close> otherwise.
\<close>

fun get_prop :: "json \<Rightarrow> string \<Rightarrow> error + json" where
  "get_prop JUndefined k = Inl TypeError"
| "get_prop JNull k = Inl TypeError"
| "get_prop (JObj fs) k = Inr (case map_of (rev fs) k of Some v \<Rightarrow> v | None \<Rightarrow> JUndefined)"
| "get_prop _ k = Inr JUndefined"

text \<open>The member \<open>k\<close> of a value that is known not to be \<open>null\<close> or \<open>undefined\<close>.\<close>

definition member :: "json \<Rightarrow> string \<Rightarrow> json" where
  "member v k = (case get_prop v k of Inr x \<Rightarrow> x | Inl _ \<Rightarrow> JUndefined)"

text \<open>\<open>v[0]\<close>.\<close>

fun first_element :: "json \<Rightarrow> error + json" where
  "first_element JUndefined = Inl TypeError"
| "first_element JNull = Inl TypeError"
| "first_element (JArr (x # xs)) = Inr x"
| "first_element (JStr (c # cs)) = Inr (JStr [c])"
| "first_element (JObj fs) = get_prop (JObj fs) ''0''"
| "first_element _ = Inr JUndefined"

text \<open>A destructuring default: \<open>{ k = d }\<close> takes \<open>d\<close> when the member is \<open>undefined\<close>.\<close>

definition or_default :: "json \<Rightarrow> json \<Rightarrow> json" where
  "or_default v d = (if v = JUndefined then d else v)"

definition digit :: "nat \<Rightarrow> char" where
  "digit d = ''0123456789'' ! d"

function decimal :: "nat \<Rightarrow> string" where
  "decimal n = (if n < 10 then [digit n] else decimal (n div 10) @ [digit (n mod 10)])"
  by pat_completeness auto
termination
  by (relation "measure id") auto

declare decimal.simps [simp del]

fun map_indexed :: "(nat \<Rightarrow> 'a \<Rightarrow> error + 'b) \<Rightarrow> nat \<Rightarrow> 'a list \<Rightarrow> error + 'b list" where
  "map_indexed f idx [] = Inr []"
| "map_indexed f idx (x # xs) =
     (case f idx x of
        Inl e \<Rightarrow> Inl e
      | Inr y \<Rightarrow> (case map_indexed f (Suc idx) xs of Inl e \<Rightarrow> Inl e | Inr ys \<Rightarrow> Inr (y # ys)))"

section \<open>The frontend normaliser\<close>

text \<open>The callback of \<open>map\<close> in \<open>normaliseInitiatives\<close>, and the function itself.\<close>

definition normaliseInitiative :: "runtime \<Rightarrow> nat \<Rightarrow> json \<Rightarrow> error + initiative" where
  "normaliseInitiative rt idx i =
     (case get_prop i ''id'' of
        Inl e \<Rightarrow> Inl e
      | Inr i_id \<Rightarrow>
          Inr \<lparr>id' = (case i_id of JNum (Fin q) \<Rightarrow> Fin q | _ \<Rightarrow> Fin (clock rt idx + of_nat idx)),
               title = String rt (if truthy (member i ''title'') then member i ''title''
                                  else JStr (''Task '' @ decimal (idx + 1))),
               effortManDays = js_round (js_or (Number rt (member i ''effortManDays'')) (Fin 0)),
               week = js_or (Number rt (member i ''week'')) (Fin 1),
               okr = String rt (if truthy (member i ''okr'') then member i ''okr''
                                else JStr ''Unassigned''),
               taskDependencies =
                 (case member i ''taskDependencies'' of JArr xs \<Rightarrow> xs | _ \<Rightarrow> []),
               teamDependencies =
                 (case member i ''teamDependencies'' of JArr xs \<Rightarrow> xs | _ \<Rightarrow> [])\<rparr>)"

definition normaliseInitiatives :: "runtime \<Rightarrow> json \<Rightarrow> error + initiative list" where
  "normaliseInitiatives rt raw =
     (case (if truthy raw then raw else JArr []) of
        JArr xs \<Rightarrow> map_indexed (normaliseInitiative rt) 0 xs
      | _ \<Rightarrow> Inl TypeError)"

section \<open>The backend\<close>

text \<open>\<open>normalizeInitiatives(raw = [])\<close> and the callback of its \<open>map\<close>.\<close>

definition normalizeInitiative :: "runtime \<Rightarrow> nat \<Rightarrow> json \<Rightarrow> error + initiative" where
  "normalizeInitiative rt idx i =
     (case get_prop i ''id'' of
        Inl e \<Rightarrow> Inl e
      | Inr i_id \<Rightarrow>
          Inr \<lparr>id' = (case i_id of JNum (Fin q) \<Rightarrow> Fin q | _ \<Rightarrow> Fin (clock rt idx + of_nat idx)),
               title = String rt (if truthy (member i ''title'') then member i ''title''
                                  else JStr (''Task '' @ decimal (idx + 1))),
               effortManDays = js_or (Number rt (member i ''effortManDays'')) (Fin 0),
               week = js_or (Number rt (member i ''week'')) (Fin 1),
               okr = String rt (if truthy (member i ''okr'') then member i ''okr''
                                else JStr ''Unassigned''),
               taskDependencies =
                 (case member i ''taskDependencies'' of JArr xs \<Rightarrow> xs | _ \<Rightarrow> []),
               teamDependencies =
                 (case member i ''teamDependencies'' of JArr xs \<Rightarrow> xs | _ \<Rightarrow> [])\<rparr>)"

definition normalizeInitiatives :: "runtime \<Rightarrow> json \<Rightarrow> error + initiative list" where
  "normalizeInitiatives rt raw =
     (case or_default raw (JArr []) of
        JArr xs \<Rightarrow> map_indexed (normalizeInitiative rt) 0 xs
      | _ \<Rightarrow> Inl TypeError)"

text \<open>
  A response: the HTTP status and the JSON body, which is either \<open>{ error: message }\<close>
  (\<open>Inl\<close>, with the error whose message it is) or \<open>{ initiatives }\<close> (\<open>Inr\<close>).
\<close>

record response =
  status :: nat
  payload :: "error + initiative list"

text \<open>\<open>safeJsonParse\<close>; \<open>text.replace\<close> is not a function unless \<open>text\<close> is a string.\<close>

definition safeJsonParse :: "runtime \<Rightarrow> json \<Rightarrow> error + json" where
  "safeJsonParse rt text =
     (case text of
        JStr s \<Rightarrow> (case parse_cleaned rt s of
                      Some v \<Rightarrow> Inr v
                    | None \<Rightarrow> Inl (Error ''LLM returned invalid JSON''))
      | _ \<Rightarrow> Inl TypeError)"

text \<open>
  Both handlers end alike once the producer has replied with \<open>raw\<close>: read
  \<open>raw.choices[0].message.content\<close>, parse it, normalise \<open>parsed.initiatives\<close>, respond.
\<close>

definition read_content :: "json \<Rightarrow> error + json" where
  "read_content raw =
     (case get_prop raw ''choices'' of
        Inl e \<Rightarrow> Inl e
      | Inr choices \<Rightarrow>
          (case first_element choices of
             Inl e \<Rightarrow> Inl e
           | Inr choice \<Rightarrow>
               (case get_prop choice ''message'' of
                  Inl e \<Rightarrow> Inl e
                | Inr message \<Rightarrow> get_prop message ''content'')))"

definition respond_with_reply :: "runtime \<Rightarrow> json \<Rightarrow> error + response" where
  "respond_with_reply rt raw =
     (case read_content raw of
        Inl e \<Rightarrow> Inl e
      | Inr content \<Rightarrow>
          if \<not> truthy content then Inl (Error ''Empty response from OpenAI'')
          else
            (case safeJsonParse rt content of
               Inl e \<Rightarrow> Inl e
             | Inr parsed \<Rightarrow>
                 (case get_prop parsed ''initiatives'' of
                    Inl e \<Rightarrow> Inl e
                  | Inr v \<Rightarrow>
                      (case normalizeInitiatives rt v of
                         Inl e \<Rightarrow> Inl e
                       | Inr initiatives \<Rightarrow> Inr \<lparr>status = 200, payload = Inr initiatives\<rparr>))))"

text \<open>
  The \<open>catch\<close> clause: status 500 with \<open>err.message || fallback\<close>. The message of a
  TypeError is the runtime's and is not empty.
\<close>

definition on_error :: "string \<Rightarrow> error \<Rightarrow> response" where
  "on_error fallback err =
     \<lparr>status = 500,
      payload = Inl (case err of Error m \<Rightarrow> if m = [] then Error fallback else Error m
                               | TypeError \<Rightarrow> TypeError)\<rparr>"

text \<open>
  The destructuring of \<open>context\<close> and \<open>constraints\<close> at the head of both handlers: the
  defaults apply to \<open>undefined\<close> only, and destructuring \<open>null\<close> throws.
\<close>

definition destructure_settings :: "json \<Rightarrow> error + unit" where
  "destructure_settings body =
     (case get_prop (or_default (member body ''context'') (JObj [])) ''organisation'' of
        Inl e \<Rightarrow> Inl e
      | Inr _ \<Rightarrow>
          (case get_prop (or_default (member body ''constraints'') (JObj [])) ''manDays'' of
             Inl e \<Rightarrow> Inl e
           | Inr _ \<Rightarrow> Inr ()))"

text \<open>
  \<open>POST /ai/generate-roadmap\<close> and \<open>POST /ai/modify-roadmap\<close> on the request body: the
  response, and the prompts sent to the external producer on the way.
\<close>

definition generate_roadmap :: "runtime \<Rightarrow> json \<Rightarrow> response \<times> string list" where
  "generate_roadmap rt body =
     (case get_prop body ''okrs'' of
        Inl e \<Rightarrow> (on_error ''Failed to generate roadmap'' e, [])
      | Inr okrs \<Rightarrow>
          (case destructure_settings body of
             Inl e \<Rightarrow> (on_error ''Failed to generate roadmap'' e, [])
           | Inr _ \<Rightarrow>
               if \<not> (case okrs of JArr xs \<Rightarrow> True | _ \<Rightarrow> False) \<or>
                  (case okrs of JArr xs \<Rightarrow> length xs = 0 | _ \<Rightarrow> False)
               then (\<lparr>status = 400, payload = Inl (Error ''At least one OKR is required'')\<rparr>, [])
               else
                 let prompt = generate_prompt rt body in
                 (case call_producer rt prompt of
                    Inl e \<Rightarrow> (on_error ''Failed to generate roadmap'' e, [prompt])
                  | Inr raw \<Rightarrow>
                      (case respond_with_reply rt raw of
                         Inl e \<Rightarrow> (on_error ''Failed to generate roadmap'' e, [prompt])
                       | Inr r \<Rightarrow> (r, [prompt])))))"

definition modify_roadmap :: "runtime \<Rightarrow> json \<Rightarrow> response \<times> string list" where
  "modify_roadmap rt body =
     (case get_prop body ''command'' of
        Inl e \<Rightarrow> (on_error ''Failed to modify roadmap'' e, [])
      | Inr command \<Rightarrow>
          (case destructure_settings body of
             Inl e \<Rightarrow> (on_error ''Failed to modify roadmap'' e, [])
           | Inr _ \<Rightarrow>
               if \<not> truthy command
               then (\<lparr>status = 400, payload = Inl (Error ''Command is required'')\<rparr>, [])
               else
                 let prompt = modify_prompt rt body in
                 (case call_producer rt prompt of
                    Inl e \<Rightarrow> (on_error ''Failed to modify roadmap'' e, [prompt])
                  | Inr raw \<Rightarrow>
                      (case respond_with_reply rt raw of
                         Inl e \<Rightarrow> (on_error ''Failed to modify roadmap'' e, [prompt])
                       | Inr r \<Rightarrow> (r, [prompt])))))"

section \<open>Notions used to state the properties\<close>

text \<open>The keys \<open>1, 2, ..., \<lfloor>safeWeeks\<rfloor>\<close> that the initialisation loop creates.\<close>

definition week_keys :: "rat \<Rightarrow> rat set" where
  "week_keys sw = rat_of_nat ` {1..nat \<lfloor>sw\<rfloor>}"

text \<open>Every fragment stored under a week carries that week in its \<open>week\<close> field.\<close>

definition frag_weeks :: "weeks \<Rightarrow> bool" where
  "frag_weeks bw = (\<forall>q frs f. bw q = Some frs \<longrightarrow> f \<in> set frs \<longrightarrow> week f = Fin q)"

text \<open>Every week of \<open>bw\<close> keeps its fragments in \<open>bw'\<close>, possibly followed by more.\<close>

definition weeks_extend :: "weeks \<Rightarrow> weeks \<Rightarrow> bool" where
  "weeks_extend bw bw' = (\<forall>q frs. bw q = Some frs \<longrightarrow> (\<exists>more. bw' q = Some (frs @ more)))"

text \<open>
  The per-week accumulator (the sum the loop computes with \<open>reduce\<close>) is a finite number
  that does not exceed the capacity, in every week.
\<close>

definition within_capacity :: "jsnum \<Rightarrow> weeks \<Rightarrow> bool" where
  "within_capacity cap bw =
     (\<forall>q frs. bw q = Some frs \<longrightarrow> isFinite (used_effort frs) \<and> js_le (used_effort frs) cap)"




text \<open>
  For the proofs: the value of a finite number, plans whose fragments all have finite
  efforts, the placed effort as a rational, and the invariant of the placement loop of
  \<open>item\<close> started with weeks \<open>bw0\<close> and \<open>remaining = r0\<close>: what is placed for other
  ids is unchanged, and what is placed for \<open>item\<close> plus what remains is what it was.
\<close>

fun fin_val :: "jsnum \<Rightarrow> rat" where
  "fin_val (Fin a) = a"
| "fin_val _ = 0"




text \<open>
  Initiatives whose \<open>week\<close> and \<open>id\<close> are finite numbers, and the pair the comparator
  orders them by (pairs are ordered lexicographically).
\<close>

definition sort_key_of :: "initiative \<Rightarrow> rat \<times> rat" where
  "sort_key_of i = (fin_val (week i), fin_val (id' i))"

definition finite_keys :: "initiative \<Rightarrow> bool" where
  "finite_keys i = (isFinite (week i) \<and> isFinite (id' i))"


section \<open>The weeks created by the initialisation loop\<close>

lemma init_weeks_lookup:
  "init_weeks w sw bw q = (if (\<exists>k::nat. q = w + of_nat k) \<and> q \<le> sw then Some [] else bw q)"
proof (induction w sw bw rule: init_weeks.induct)
  case (1 w sw bw)
  show ?case
  proof (cases "w \<le> sw")
    case True
    have eq: "(\<exists>k::nat. q = w + of_nat k) \<longleftrightarrow> q = w \<or> (\<exists>k::nat. q = w + 1 + of_nat k)"
    proof
      assume "\<exists>k::nat. q = w + of_nat k"
      then obtain k :: nat where k: "q = w + of_nat k" by blast
      show "q = w \<or> (\<exists>k::nat. q = w + 1 + of_nat k)"
      proof (cases k)
        case 0 with k show ?thesis by simp
      next
        case (Suc j)
        with k have "q = w + 1 + of_nat j" by simp
        then show ?thesis by blast
      qed
    next
      assume "q = w \<or> (\<exists>k::nat. q = w + 1 + of_nat k)"
      then show "\<exists>k::nat. q = w + of_nat k"
      proof
        assume "q = w"
        then have "q = w + of_nat 0" by simp
        then show ?thesis by blast
      next
        assume "\<exists>k::nat. q = w + 1 + of_nat k"
        then obtain k :: nat where "q = w + 1 + of_nat k" by blast
        then have "q = w + of_nat (Suc k)" by simp
        then show ?thesis by blast
      qed
    qed
    have "init_weeks w sw bw q = init_weeks (w + 1) sw (bw(w \<mapsto> [])) q"
      using True by (subst init_weeks.simps) simp
    also have "\<dots> = (if (\<exists>k::nat. q = w + 1 + of_nat k) \<and> q \<le> sw then Some []
                      else (bw(w \<mapsto> [])) q)"
      by (rule 1 [OF True])
    also have "\<dots> = (if (\<exists>k::nat. q = w + of_nat k) \<and> q \<le> sw then Some [] else bw q)"
      using True by (auto simp: eq)
    finally show ?thesis .
  next
    case False
    have "\<not> ((\<exists>k::nat. q = w + of_nat k) \<and> q \<le> sw)"
    proof
      assume "(\<exists>k::nat. q = w + of_nat k) \<and> q \<le> sw"
      then obtain k :: nat where "q = w + of_nat k" "q \<le> sw" by blast
      then have "w \<le> sw" by (smt (verit) le_add_same_cancel1 of_nat_0_le_iff order_trans)
      with False show False by simp
    qed
    moreover have "init_weeks w sw bw q = bw q"
      using False by (subst init_weeks.simps) simp
    ultimately show ?thesis by auto
  qed
qed

lemma week_keys_iff: "q \<in> week_keys sw \<longleftrightarrow> (\<exists>k::nat. q = 1 + of_nat k) \<and> q \<le> sw"
proof
  assume "q \<in> week_keys sw"
  then obtain n :: nat where n: "q = of_nat n" "1 \<le> n" "n \<le> nat \<lfloor>sw\<rfloor>"
    by (auto simp: week_keys_def)
  then have "q = 1 + of_nat (n - 1)" by (simp add: of_nat_diff)
  moreover from n have "int n \<le> \<lfloor>sw\<rfloor>" by linarith
  then have "q \<le> sw" using n(1) by (simp add: le_floor_iff)
  ultimately show "(\<exists>k::nat. q = 1 + of_nat k) \<and> q \<le> sw" by blast
next
  assume "(\<exists>k::nat. q = 1 + of_nat k) \<and> q \<le> sw"
  then obtain k :: nat where k: "q = 1 + of_nat k" "q \<le> sw" by blast
  then have "q = of_nat (Suc k)" by simp
  moreover from k have "int (Suc k) \<le> \<lfloor>sw\<rfloor>" by (simp add: le_floor_iff)
  then have "Suc k \<le> nat \<lfloor>sw\<rfloor>" by linarith
  ultimately show "q \<in> week_keys sw" unfolding week_keys_def
    by (intro image_eqI [where x = "Suc k"]) simp_all
qed

lemma init_weeks_start:
  "init_weeks 1 sw Map.empty q = (if q \<in> week_keys sw then Some [] else None)"
  by (simp add: init_weeks_lookup week_keys_iff)


section \<open>Invariants of the placement loop and of the run over the initiatives\<close>

lemma place_loop_exit:
  "\<not> loop_guard sw remaining w \<Longrightarrow> place_loop sw cap item bw remaining w = Inr (bw, remaining)"
  by (subst place_loop.simps) simp

lemma place_loop_step:
  "loop_guard sw remaining w \<Longrightarrow>
   place_loop sw cap item bw remaining w =
     (case place_step cap item bw remaining w of
        Inl e \<Rightarrow> Inl e
      | Inr (bw', remaining', w') \<Rightarrow> place_loop sw cap item bw' remaining' w')"
  by (subst place_loop.simps) simp

lemma place_loop_invariant:
  assumes "place_loop sw cap item bw remaining w = Inr (bw', remaining')"
    and "P bw remaining w"
    and "\<And>b r c b2 r2 c2. P b r c \<Longrightarrow> loop_guard sw r c \<Longrightarrow>
            place_step cap item b r c = Inr (b2, r2, c2) \<Longrightarrow> P b2 r2 c2"
  shows "\<exists>w'. P bw' remaining' w' \<and> \<not> loop_guard sw remaining' w'"
proof -
  have step: "\<forall>b r c b2 r2 c2. P b r c \<longrightarrow> loop_guard sw r c \<longrightarrow>
                place_step cap item b r c = Inr (b2, r2, c2) \<longrightarrow> P b2 r2 c2"
    using assms(3) by blast
  from assms(1,2) step show ?thesis
  proof (induction sw cap item bw remaining w rule: place_loop.induct)
    case (1 sw cap item bw remaining w)
    show ?case
    proof (cases "loop_guard sw remaining w")
      case False
      with "1.prems"(1,2) show ?thesis by (auto simp: place_loop_exit)
    next
      case True
      with "1.prems"(1) obtain b2 r2 c2 where
        st: "place_step cap item bw remaining w = Inr (b2, r2, c2)" and
        lp: "place_loop sw cap item b2 r2 c2 = Inr (bw', remaining')"
        by (auto simp: place_loop_step split: sum.splits)
      have "P b2 r2 c2" using "1.prems"(2,3) True st by blast
      then show ?thesis
        using "1.IH" [OF True st refl refl lp _ "1.prems"(3)] by blast
    qed
  qed
qed

lemma place_step_dom:
  "place_step cap item bw remaining w = Inr (bw', remaining', w') \<Longrightarrow> dom bw' = dom bw"
  by (cases w) (auto simp: place_step_def Let_def split: option.splits if_splits)

lemma place_loop_dom:
  assumes "place_loop sw cap item bw remaining w = Inr (bw', remaining')"
  shows "dom bw' = dom bw"
proof -
  have "\<exists>w'. dom bw' = dom bw \<and> \<not> loop_guard sw remaining' w'"
    by (rule place_loop_invariant [OF assms, where P = "\<lambda>b r c. dom b = dom bw"])
       (simp_all add: place_step_dom)
  then show ?thesis by simp
qed

lemma place_step_frag_weeks:
  "place_step cap item bw remaining w = Inr (bw', remaining', w') \<Longrightarrow> frag_weeks bw \<Longrightarrow> frag_weeks bw'"
  by (cases w) (auto simp: place_step_def Let_def frag_weeks_def split: option.splits if_splits)

lemma place_loop_frag_weeks:
  assumes "place_loop sw cap item bw remaining w = Inr (bw', remaining')" and "frag_weeks bw"
  shows "frag_weeks bw'"
proof -
  have "\<exists>w'. frag_weeks bw' \<and> \<not> loop_guard sw remaining' w'"
    by (rule place_loop_invariant [OF assms(1), where P = "\<lambda>b r c. frag_weeks b"])
       (simp_all add: assms(2) place_step_frag_weeks)
  then show ?thesis by simp
qed

lemma place_item_byWeek:
  "place_item sw cap st item = Inr st' \<Longrightarrow>
     \<exists>remaining'. place_loop sw cap item (byWeek st) (effortManDays item) (js_max (Fin 1) (week item))
        = Inr (byWeek st', remaining') \<and>
        backlog st' = (if js_lt (Fin 0) remaining' then backlog st @ [item] else backlog st)"
  by (auto simp: place_item_def split: sum.splits if_splits)

lemma run_items_invariant:
  assumes "run_items sw cap st items = Inr st'"
    and "P st"
    and "\<And>s item s2. P s \<Longrightarrow> item \<in> set items \<Longrightarrow> place_item sw cap s item = Inr s2 \<Longrightarrow> P s2"
  shows "P st'"
  using assms
proof (induction items arbitrary: st)
  case Nil
  then show ?case by simp
next
  case (Cons item items)
  from Cons.prems(1) obtain s2 where
    pi: "place_item sw cap st item = Inr s2" and ri: "run_items sw cap s2 items = Inr st'"
    by (auto split: sum.splits)
  have "P s2" using Cons.prems(3) [OF Cons.prems(2) _ pi] by simp
  moreover have "\<And>s x s3. P s \<Longrightarrow> x \<in> set items \<Longrightarrow> place_item sw cap s x = Inr s3 \<Longrightarrow> P s3"
    using Cons.prems(3) by (meson list.set_intros(2))
  ultimately show ?case
    by (rule Cons.IH [OF ri])
qed

lemma run_items_dom:
  assumes "run_items sw cap st items = Inr st'"
  shows "dom (byWeek st') = dom (byWeek st)"
proof (rule run_items_invariant [OF assms, where P = "\<lambda>s. dom (byWeek s) = dom (byWeek st)"])
  fix s item s2
  assume "dom (byWeek s) = dom (byWeek st)" "place_item sw cap s item = Inr s2"
  then show "dom (byWeek s2) = dom (byWeek st)"
    using place_item_byWeek place_loop_dom by metis
qed simp

lemma run_items_frag_weeks:
  assumes "run_items sw cap st items = Inr st'" and "frag_weeks (byWeek st)"
  shows "frag_weeks (byWeek st')"
proof (rule run_items_invariant [OF assms(1), where P = "\<lambda>s. frag_weeks (byWeek s)"])
  fix s item s2
  assume "frag_weeks (byWeek s)" "place_item sw cap s item = Inr s2"
  then show "frag_weeks (byWeek s2)"
    using place_item_byWeek place_loop_frag_weeks by metis
qed (rule assms(2))

lemma safeWeeks_cases:
  "safeWeeks tw = (case tw of Fin q \<Rightarrow> if 0 < q then q else 1 | _ \<Rightarrow> 1)"
  by (cases tw) (simp_all add: safeWeeks_def)

lemma safeWeeks_pos: "0 < safeWeeks tw"
  by (cases tw) (simp_all add: safeWeeks_def)

section \<open>Bounded iteration and absence of errors\<close>

















section \<open>The backlog and the fragments already placed\<close>

lemma weeks_extend_refl: "weeks_extend bw bw"
  by (simp add: weeks_extend_def)

lemma weeks_extend_trans:
  assumes "weeks_extend a b" and "weeks_extend b c"
  shows "weeks_extend a c"
  unfolding weeks_extend_def
proof (intro allI impI)
  fix q frs assume "a q = Some frs"
  with assms(1) obtain m1 where "b q = Some (frs @ m1)" unfolding weeks_extend_def by blast
  with assms(2) obtain m2 where "c q = Some ((frs @ m1) @ m2)" unfolding weeks_extend_def by blast
  then have "c q = Some (frs @ (m1 @ m2))" by simp
  then show "\<exists>more. c q = Some (frs @ more)" by blast
qed

lemma place_step_extend:
  "place_step cap item bw remaining w = Inr (bw', remaining', w') \<Longrightarrow> weeks_extend bw bw'"
  by (cases w) (auto simp: place_step_def Let_def weeks_extend_def split: option.splits if_splits)

lemma place_loop_extend:
  assumes "place_loop sw cap item bw remaining w = Inr (bw', remaining')"
  shows "weeks_extend bw bw'"
proof -
  have "\<exists>w'. weeks_extend bw bw' \<and> \<not> loop_guard sw remaining' w'"
  proof (rule place_loop_invariant [OF assms, where P = "\<lambda>b r c. weeks_extend bw b"])
    show "weeks_extend bw bw" by (rule weeks_extend_refl)
  next
    fix b r c b2 r2 c2
    assume "weeks_extend bw b" "place_step cap item b r c = Inr (b2, r2, c2)"
    then show "weeks_extend bw b2"
      using place_step_extend weeks_extend_trans by blast
  qed
  then show ?thesis by simp
qed

lemma run_items_extend:
  "run_items sw cap st items = Inr fin \<Longrightarrow> weeks_extend (byWeek st) (byWeek fin)"
proof (induction items arbitrary: st)
  case Nil
  then show ?case by (simp add: weeks_extend_refl)
next
  case (Cons item items)
  from Cons.prems obtain s2 where
    pi: "place_item sw cap st item = Inr s2" and ri: "run_items sw cap s2 items = Inr fin"
    by (auto split: sum.splits)
  from place_item_byWeek [OF pi] place_loop_extend
  have "weeks_extend (byWeek st) (byWeek s2)" by blast
  with Cons.IH [OF ri] show ?case by (rule weeks_extend_trans [rotated])
qed

lemma run_items_backlog:
  "run_items sw cap st items = Inr fin \<Longrightarrow>
     \<exists>rest. backlog fin = backlog st @ rest \<and> subseq rest items"
proof (induction items arbitrary: st)
  case Nil
  then show ?case by simp
next
  case (Cons item items)
  from Cons.prems obtain s2 where
    pi: "place_item sw cap st item = Inr s2" and ri: "run_items sw cap s2 items = Inr fin"
    by (auto split: sum.splits)
  from Cons.IH [OF ri] obtain rest where
    rest: "backlog fin = backlog s2 @ rest" "subseq rest items" by blast
  from place_item_byWeek [OF pi]
  have "backlog s2 = backlog st @ [item] \<or> backlog s2 = backlog st"
    by (auto split: if_splits)
  then show ?case
  proof
    assume "backlog s2 = backlog st @ [item]"
    with rest have "backlog fin = backlog st @ (item # rest)" "subseq (item # rest) (item # items)"
      by simp_all
    then show ?thesis by blast
  next
    assume "backlog s2 = backlog st"
    with rest have "backlog fin = backlog st @ rest" "subseq rest (item # items)"
      by (simp_all add: list_emb_Cons)
    then show ?thesis by blast
  qed
qed

lemma run_items_append:
  "run_items sw cap st (xs @ ys) =
     (case run_items sw cap st xs of Inl e \<Rightarrow> Inl e | Inr s \<Rightarrow> run_items sw cap s ys)"
  by (induction xs arbitrary: st) (auto split: sum.splits)

section \<open>The capacity of a week\<close>

lemma used_effort_snoc:
  "used_effort (frs @ [f]) = js_add (used_effort frs) (effortManDays f)"
  by (simp add: used_effort_def)

lemma isFinite_iff: "isFinite x \<longleftrightarrow> (\<exists>a. x = Fin a)"
  by (cases x) simp_all

lemma js_lt_zero_cases:
  "js_lt (Fin 0) x \<longleftrightarrow> (\<exists>r. x = Fin r \<and> 0 < r) \<or> x = PInf"
  by (cases x) simp_all

lemma js_le_Fin [simp]: "js_le (Fin a) (Fin b) \<longleftrightarrow> a \<le> b"
  by (auto simp: js_le_def)

lemma js_sub_Fin [simp]: "js_sub (Fin a) (Fin b) = Fin (a - b)"
  by (simp add: js_sub_def)

lemma js_min_Fin [simp]: "js_min (Fin a) (Fin b) = Fin (min a b)"
  by (auto simp: js_min_def)

lemma js_min_PInf [simp]: "js_min PInf (Fin b) = Fin b"
  by (simp add: js_min_def)

lemma js_sub_PInf [simp]: "js_sub PInf (Fin b) = PInf"
  by (simp add: js_sub_def)

lemma place_step_push:
  assumes "place_step (Fin c) item bw remaining (Fin q) = Inr (bw', remaining', w')"
    and "bw q = Some frs" and "used_effort frs = Fin u" and "js_lt (Fin 0) remaining"
  shows "(c - u \<le> 0 \<and> bw' = bw \<and> remaining' = remaining) \<or>
         (\<exists>e. 0 < e \<and> e \<le> c - u \<and>
              bw' = bw(q \<mapsto> frs @ [item\<lparr>effortManDays := Fin e, week := Fin q\<rparr>]) \<and>
              ((\<exists>r. remaining = Fin r \<and> e \<le> r \<and> remaining' = Fin (r - e)) \<or>
               (remaining = PInf \<and> remaining' = PInf)))"
proof (cases "c - u \<le> 0")
  case True
  with assms show ?thesis
    by (simp add: place_step_def Let_def)
next
  case False
  from assms(4) consider r where "remaining = Fin r" "0 < r" | "remaining = PInf"
    by (auto simp: js_lt_zero_cases)
  then show ?thesis
  proof cases
    case 1
    with False assms(1-3) show ?thesis
      by (auto simp: place_step_def Let_def)
  next
    case 2
    with False assms(1-3) have
      "bw' = bw(q \<mapsto> frs @ [item\<lparr>effortManDays := Fin (c - u), week := Fin q\<rparr>])"
      "remaining' = PInf"
      by (auto simp: place_step_def Let_def)
    with 2 False show ?thesis
      by (intro disjI2 exI [of _ "c - u"]) simp
  qed
qed

lemma place_step_within_capacity:
  assumes "within_capacity (Fin c) bw" and "js_lt (Fin 0) remaining"
    and "place_step (Fin c) item bw remaining w = Inr (bw', remaining', w')"
  shows "within_capacity (Fin c) bw'"
proof -
  from place_step_cursor [OF assms(3)] obtain q where q: "w = Fin q" by blast
  with assms(3) obtain frs where frs: "bw q = Some frs"
    by (auto simp: place_step_def split: option.splits)
  with assms(1) have "isFinite (used_effort frs)" "js_le (used_effort frs) (Fin c)"
    unfolding within_capacity_def by blast+
  then obtain u where u: "used_effort frs = Fin u" "u \<le> c"
    by (auto simp: isFinite_iff js_le_def)
  from place_step_push [OF assms(3) [unfolded q] frs u(1) assms(2)]
  show ?thesis
  proof (elim disjE conjE exE)
    assume "bw' = bw"
    with assms(1) show ?thesis by simp
  next
    fix e assume e: "0 < e" "e \<le> c - u"
      and b: "bw' = bw(q \<mapsto> frs @ [item\<lparr>effortManDays := Fin e, week := Fin q\<rparr>])"
    have "used_effort (frs @ [item\<lparr>effortManDays := Fin e, week := Fin q\<rparr>]) = Fin (u + e)"
      by (simp add: used_effort_snoc u)
    moreover from e have "u + e \<le> c" by simp
    ultimately show ?thesis
      using assms(1) unfolding b within_capacity_def by (auto simp: js_le_def)
  next
    fix e assume e: "0 < e" "e \<le> c - u"
      and b: "bw' = bw(q \<mapsto> frs @ [item\<lparr>effortManDays := Fin e, week := Fin q\<rparr>])"
    have "used_effort (frs @ [item\<lparr>effortManDays := Fin e, week := Fin q\<rparr>]) = Fin (u + e)"
      by (simp add: used_effort_snoc u)
    moreover from e have "u + e \<le> c" by simp
    ultimately show ?thesis
      using assms(1) unfolding b within_capacity_def by (auto simp: js_le_def)
  qed
qed

lemma place_loop_within_capacity:
  assumes "place_loop sw (Fin c) item bw remaining w = Inr (bw', remaining')"
    and "within_capacity (Fin c) bw"
  shows "within_capacity (Fin c) bw'"
proof -
  have "\<exists>w'. within_capacity (Fin c) bw' \<and> \<not> loop_guard sw remaining' w'"
  proof (rule place_loop_invariant [OF assms(1), where P = "\<lambda>b r c'. within_capacity (Fin c) b"])
    show "within_capacity (Fin c) bw" by (rule assms(2))
  next
    fix b r c' b2 r2 c2
    assume "within_capacity (Fin c) b" "loop_guard sw r c'"
      "place_step (Fin c) item b r c' = Inr (b2, r2, c2)"
    then show "within_capacity (Fin c) b2"
      using place_step_within_capacity by (simp add: loop_guard_def) blast
  qed
  then show ?thesis by simp
qed

lemma run_items_within_capacity:
  assumes "run_items sw (Fin c) st items = Inr st'" and "within_capacity (Fin c) (byWeek st)"
  shows "within_capacity (Fin c) (byWeek st')"
proof (rule run_items_invariant [OF assms(1), where P = "\<lambda>s. within_capacity (Fin c) (byWeek s)"])
  fix s item s2
  assume "within_capacity (Fin c) (byWeek s)" "place_item sw (Fin c) s item = Inr s2"
  then show "within_capacity (Fin c) (byWeek s2)"
    using place_item_byWeek place_loop_within_capacity by metis
qed (rule assms(2))

lemma weeklyCapacity_Fin: "weeklyCapacity (Fin m) tw = Fin (m / safeWeeks tw)"
  using safeWeeks_pos [of tw] by (simp add: weeklyCapacity_def)

section \<open>Conservation of effort\<close>














section \<open>The processing order\<close>

lemma compare_finite:
  assumes "finite_keys x" and "finite_keys y"
  shows "js_lt (Fin 0) (compare_initiatives x y) \<longleftrightarrow> \<not> sort_key_of x \<le> sort_key_of y"
proof -
  from assms obtain wx ix wy iy where
    "week x = Fin wx" "id' x = Fin ix" "week y = Fin wy" "id' y = Fin iy"
    by (auto simp: finite_keys_def isFinite_iff)
  then show ?thesis
    by (auto simp: compare_initiatives_def js_or_def sort_key_of_def)
qed

lemma insert_sorted_insort:
  assumes "finite_keys x" and "\<forall>y\<in>set ys. finite_keys y"
  shows "insert_sorted x ys = insort_key sort_key_of x ys"
  using assms(2)
proof (induction ys)
  case Nil
  then show ?case by simp
next
  case (Cons y ys)
  then show ?case using compare_finite [OF assms(1), of y] by simp
qed

lemma sort_initiatives_sort_key:
  assumes "\<forall>x\<in>set xs. finite_keys x"
  shows "sort_initiatives xs = sort_key sort_key_of xs"
  using assms
proof (induction xs)
  case Nil
  then show ?case by (simp add: sort_initiatives_def)
next
  case (Cons x xs)
  then have "sort_initiatives xs = sort_key sort_key_of xs" by simp
  moreover from Cons.prems have "\<forall>y\<in>set (sort_key sort_key_of xs). finite_keys y" by simp
  ultimately show ?case
    using Cons.prems insert_sorted_insort [of x "sort_key sort_key_of xs"]
    by (simp add: sort_initiatives_def sort_key_def)
qed


lemma sort_initiatives_permutation_invariant:
  assumes "mset xs = mset ys" and "\<forall>x\<in>set xs. finite_keys x" and "distinct (map id' xs)"
  shows "sort_initiatives xs = sort_initiatives ys"
proof -
  from assms(1) have sets: "set xs = set ys" by (rule mset_eq_setD)
  have inj: "inj_on sort_key_of (set xs)"
  proof (rule inj_onI)
    fix a b assume ab: "a \<in> set xs" "b \<in> set xs" "sort_key_of a = sort_key_of b"
    with assms(2) have "finite_keys a" "finite_keys b" by simp_all
    with ab(3) have "id' a = id' b"
      by (auto simp: finite_keys_def isFinite_iff sort_key_of_def)
    moreover from assms(3) have "inj_on id' (set xs)" by (simp add: distinct_map)
    ultimately show "a = b" using ab(1,2) by (simp add: inj_on_def)
  qed
  have "sort_key sort_key_of xs = sort_key sort_key_of ys"
  proof (rule sort_key_inj_key_eq)
    show "mset xs = mset (sort_key sort_key_of ys)" using assms(1) by simp
    show "inj_on sort_key_of (set xs)" by (rule inj)
    show "sorted (map sort_key_of (sort_key sort_key_of ys))" by (rule sorted_sort_key)
  qed
  moreover from assms(2) sets have "\<forall>x\<in>set ys. finite_keys x" by simp
  ultimately show ?thesis
    by (simp add: sort_initiatives_sort_key assms(2))
qed

section \<open>The normalisers and the handlers\<close>

lemma get_prop_error: "get_prop v k = Inl e \<Longrightarrow> e = TypeError"
  by (cases v) auto

lemma on_error_payload: "\<exists>e'. payload (on_error fb e) = Inl e'"
  by (simp add: on_error_def)

lemma on_error_status: "status (on_error fb e) = 500"
  by (simp add: on_error_def)

lemma generate_roadmap_rejects:
  assumes "\<not> (\<exists>x xs. member body ''okrs'' = JArr (x # xs))"
  shows "snd (generate_roadmap rt body) = [] \<and>
         (\<exists>e. payload (fst (generate_roadmap rt body)) = Inl e) \<and>
         (if body \<noteq> JNull \<and> body \<noteq> JUndefined \<and> destructure_settings body = Inr ()
          then fst (generate_roadmap rt body) =
                 \<lparr>status = 400, payload = Inl (Error ''At least one OKR is required'')\<rparr>
          else status (fst (generate_roadmap rt body)) = 500)"
proof (cases "get_prop body ''okrs''")
  case (Inl e)
  then have "body = JNull \<or> body = JUndefined" by (cases body) auto
  with Inl show ?thesis
    by (auto simp: generate_roadmap_def on_error_def)
next
  case (Inr okrs)
  then have nn: "body \<noteq> JNull \<and> body \<noteq> JUndefined" by (cases body) auto
  from Inr have m: "member body ''okrs'' = okrs" by (simp add: member_def)
  show ?thesis
  proof (cases "destructure_settings body")
    case (Inl e)
    with Inr show ?thesis
      by (auto simp: generate_roadmap_def on_error_def)
  next
    case (Inr u)
    have "\<not> (case okrs of JArr xs \<Rightarrow> True | _ \<Rightarrow> False) \<or>
          (case okrs of JArr xs \<Rightarrow> length xs = 0 | _ \<Rightarrow> False)"
    proof (cases okrs)
      case (JArr xs)
      with assms m have "xs = []" by (cases xs) auto
      with JArr show ?thesis by simp
    qed simp_all
    with Inr \<open>get_prop body ''okrs'' = Inr okrs\<close> nn show ?thesis
      by (simp add: generate_roadmap_def)
  qed
qed

lemma modify_roadmap_rejects:
  assumes "\<not> truthy (member body ''command'')"
  shows "snd (modify_roadmap rt body) = [] \<and>
         (\<exists>e. payload (fst (modify_roadmap rt body)) = Inl e) \<and>
         (if body \<noteq> JNull \<and> body \<noteq> JUndefined \<and> destructure_settings body = Inr ()
          then fst (modify_roadmap rt body) =
                 \<lparr>status = 400, payload = Inl (Error ''Command is required'')\<rparr>
          else status (fst (modify_roadmap rt body)) = 500)"
proof (cases "get_prop body ''command''")
  case (Inl e)
  then have "body = JNull \<or> body = JUndefined" by (cases body) auto
  with Inl show ?thesis
    by (auto simp: modify_roadmap_def on_error_def)
next
  case (Inr command)
  then have nn: "body \<noteq> JNull \<and> body \<noteq> JUndefined" by (cases body) auto
  from Inr have m: "member body ''command'' = command" by (simp add: member_def)
  show ?thesis
  proof (cases "destructure_settings body")
    case (Inl e)
    with Inr show ?thesis
      by (auto simp: modify_roadmap_def on_error_def)
  next
    case (Inr u)
    with assms m \<open>get_prop body ''command'' = Inr command\<close> nn show ?thesis
      by (simp add: modify_roadmap_def)
  qed
qed

lemma floor_half [simp]: "\<lfloor>1 / 2 :: rat\<rfloor> = 0"
  by (rule floor_unique) simp_all

lemma js_round_zero: "js_round (Fin 0) = Fin 0"
  by simp

lemma js_round_integral:
  "(\<exists>z::int. js_round x = Fin (of_int z)) \<or> js_round x = PInf \<or> js_round x = NInf \<or> js_round x = NaN"
  by (cases x) auto

lemma js_or_not_NaN: "js_or x (Fin d) \<noteq> NaN"
  by (cases x) (auto simp: js_or_def)

lemma js_round_NaN_iff: "js_round x = NaN \<longleftrightarrow> x = NaN"
  by (cases x) auto

lemma normaliseInitiative_effort:
  assumes "normaliseInitiative rt idx i = Inr r"
  shows "effortManDays r = js_round (js_or (Number rt (member i ''effortManDays'')) (Fin 0)) \<and>
         effortManDays r \<noteq> NaN \<and>
         (Number rt (member i ''effortManDays'') = NaN \<longrightarrow> effortManDays r = Fin 0)"
proof -
  from assms have e: "effortManDays r = js_round (js_or (Number rt (member i ''effortManDays'')) (Fin 0))"
    by (auto simp: normaliseInitiative_def split: sum.splits)
  have "js_or NaN (Fin 0) = Fin 0" by (simp add: js_or_def)
  then have "Number rt (member i ''effortManDays'') = NaN \<longrightarrow> effortManDays r = Fin 0"
    by (simp add: e)
  with e show ?thesis by (simp add: js_round_NaN_iff js_or_not_NaN)
qed

lemma map_indexed_all:
  assumes "map_indexed f idx xs = Inr ys" and "\<And>k x y. f k x = Inr y \<Longrightarrow> P y"
  shows "\<forall>y\<in>set ys. P y"
  using assms(1)
proof (induction xs arbitrary: idx ys)
  case Nil
  then show ?case by simp
next
  case (Cons x xs)
  from Cons.prems obtain y ys' where
    "f idx x = Inr y" "map_indexed f (Suc idx) xs = Inr ys'" "ys = y # ys'"
    by (auto split: sum.splits)
  with Cons.IH assms(2) show ?case by auto
qed

lemma normaliseInitiatives_rounds:
  assumes "normaliseInitiatives rt raw = Inr rs"
  shows "\<forall>r\<in>set rs. (\<exists>z::int. effortManDays r = Fin (of_int z)) \<or>
                      effortManDays r = PInf \<or> effortManDays r = NInf"
proof -
  from assms obtain xs where xs: "map_indexed (normaliseInitiative rt) 0 xs = Inr rs"
    by (auto simp: normaliseInitiatives_def split: json.splits if_splits)
  show ?thesis
  proof (rule map_indexed_all [OF xs])
    fix k x y assume "normaliseInitiative rt k x = Inr y"
    from normaliseInitiative_effort [OF this] js_round_integral
    show "(\<exists>z::int. effortManDays y = Fin (of_int z)) \<or>
          effortManDays y = PInf \<or> effortManDays y = NInf"
      by metis
  qed
qed

section \<open>The properties\<close>

text \<open>The definitions that evaluating the engine on a concrete input unfolds.\<close>

lemmas schedule_unfold =
  schedule_def safeWeeks_def weeklyCapacity_def sort_initiatives_def compare_initiatives_def
  js_or_def js_sub_def js_le_def js_max_def js_min_def init_weeks.simps place_item_def
  place_loop.simps loop_guard_def place_step_def used_effort_def Let_def



text \<open>
  C2. When \<open>manDays\<close> is a finite number that is not negative, the fragment efforts of
  every week of the returned plan sum to at most \<open>weeklyCapacity\<close>, exactly. The
  underlying predicate on the accumulators, \<open>within_capacity\<close>, is preserved by every run
  of the loop body, so by every fragment emission.
\<close>

theorem capacity_bound:
  assumes "0 \<le> m"
  shows "(schedule initiatives tw (Fin m) = Inr p \<and> byWeek p q = Some frs \<longrightarrow>
            js_le (used_effort frs) (weeklyCapacity (Fin m) tw)) \<and>
         (within_capacity (weeklyCapacity (Fin m) tw) bw \<and> loop_guard sw remaining w \<and>
          place_step (weeklyCapacity (Fin m) tw) item bw remaining w = Inr (bw', remaining', w') \<longrightarrow>
            within_capacity (weeklyCapacity (Fin m) tw) bw')"
proof (intro conjI impI)
  let ?c = "m / safeWeeks tw"
  let ?st = "\<lparr>byWeek = init_weeks 1 (safeWeeks tw) Map.empty, backlog = []\<rparr>"
  assume a: "schedule initiatives tw (Fin m) = Inr p \<and> byWeek p q = Some frs"
  then have run: "run_items (safeWeeks tw) (Fin ?c) ?st (sort_initiatives initiatives) = Inr p"
    by (simp add: schedule_def Let_def weeklyCapacity_Fin)
  from assms safeWeeks_pos [of tw] have "0 \<le> ?c" by simp
  then have "within_capacity (Fin ?c) (byWeek ?st)"
    by (auto simp: within_capacity_def init_weeks_start used_effort_def js_le_def split: if_splits)
  from run_items_within_capacity [OF run this] a
  show "js_le (used_effort frs) (weeklyCapacity (Fin m) tw)"
    unfolding within_capacity_def weeklyCapacity_Fin by blast
next
  assume "within_capacity (weeklyCapacity (Fin m) tw) bw \<and> loop_guard sw remaining w \<and>
          place_step (weeklyCapacity (Fin m) tw) item bw remaining w = Inr (bw', remaining', w')"
  then show "within_capacity (weeklyCapacity (Fin m) tw) bw'"
    using place_step_within_capacity unfolding weeklyCapacity_Fin loop_guard_def by blast
qed

theorem capacity_bound_witness:
  fixes A B :: initiative
  defines "A \<equiv> \<lparr>id' = Fin 1, title = ''A'', effortManDays = Fin 7, week = Fin 1, okr = ''O'',
                   taskDependencies = [], teamDependencies = []\<rparr>"
    and "B \<equiv> \<lparr>id' = Fin 2, title = ''B'', effortManDays = Fin 4, week = Fin 1, okr = ''O'',
                   taskDependencies = [], teamDependencies = []\<rparr>"
  shows "(0::rat) \<le> 10 \<and>
         schedule [A, B] (Fin 2) (Fin 10) =
           Inr \<lparr>byWeek = [1 \<mapsto> [A\<lparr>effortManDays := Fin 5, week := Fin 1\<rparr>],
                           2 \<mapsto> [A\<lparr>effortManDays := Fin 2, week := Fin 2\<rparr>,
                                  B\<lparr>effortManDays := Fin 3, week := Fin 2\<rparr>]],
                 backlog = [B]\<rparr> \<and>
         js_le (used_effort [A\<lparr>effortManDays := Fin 2, week := Fin 2\<rparr>,
                             B\<lparr>effortManDays := Fin 3, week := Fin 2\<rparr>])
               (weeklyCapacity (Fin 10) (Fin 2)) \<and>
         within_capacity (weeklyCapacity (Fin 10) (Fin 2)) [1 \<mapsto> [], 2 \<mapsto> []] \<and>
         loop_guard 2 (Fin 7) (Fin 1) \<and>
         within_capacity (weeklyCapacity (Fin 10) (Fin 2))
           [1 \<mapsto> [A\<lparr>effortManDays := Fin 5, week := Fin 1\<rparr>], 2 \<mapsto> []]"
proof -
  let ?p = "\<lparr>byWeek = [1 \<mapsto> [A\<lparr>effortManDays := Fin 5, week := Fin 1\<rparr>],
                           2 \<mapsto> [A\<lparr>effortManDays := Fin 2, week := Fin 2\<rparr>,
                                  B\<lparr>effortManDays := Fin 3, week := Fin 2\<rparr>]],
                 backlog = [B]\<rparr>"
  have h0: "(0::rat) \<le> 10" by simp
  have h1: "schedule [A, B] (Fin 2) (Fin 10) = Inr ?p"
    by (simp add: schedule_unfold A_def B_def)
  have h2: "byWeek ?p 2 = Some [A\<lparr>effortManDays := Fin 2, week := Fin 2\<rparr>,
                                  B\<lparr>effortManDays := Fin 3, week := Fin 2\<rparr>]"
    by simp
  have h3: "within_capacity (weeklyCapacity (Fin 10) (Fin 2)) [1 \<mapsto> [], 2 \<mapsto> []]"
    by (simp add: within_capacity_def schedule_unfold)
  have h4: "loop_guard 2 (Fin 7) (Fin 1)" by (simp add: loop_guard_def js_le_def)
  have h5: "place_step (weeklyCapacity (Fin 10) (Fin 2)) A [1 \<mapsto> [], 2 \<mapsto> []] (Fin 7) (Fin 1)
           = Inr ([1 \<mapsto> [A\<lparr>effortManDays := Fin 5, week := Fin 1\<rparr>], 2 \<mapsto> []], Fin 2, Fin 2)"
    by (simp add: schedule_unfold A_def fun_upd_twist)
  from capacity_bound [OF h0, where initiatives = "[A, B]" and tw = "Fin 2" and p = ?p and q = 2
      and bw = "[1 \<mapsto> [], 2 \<mapsto> []]" and sw = 2 and remaining = "Fin 7" and w = "Fin 1" and item = A]
    h1 h2 h3 h4 h5
  show ?thesis by simp
qed

text \<open>
  Without the condition on \<open>manDays\<close> the bound fails: with \<open>manDays = -5\<close> nothing is
  placed, and the empty week's sum 0 exceeds the weekly capacity -5.
\<close>

theorem capacity_bound_counterexample:
  fixes A :: initiative
  defines "A \<equiv> \<lparr>id' = Fin 1, title = ''A'', effortManDays = Fin 3, week = Fin 1, okr = ''O'',
                   taskDependencies = [], teamDependencies = []\<rparr>"
  shows "schedule [A] (Fin 1) (Fin (- 5)) = Inr \<lparr>byWeek = [1 \<mapsto> []], backlog = [A]\<rparr> \<and>
         used_effort [] = Fin 0 \<and> weeklyCapacity (Fin (- 5)) (Fin 1) = Fin (- 5) \<and>
         \<not> js_le (used_effort []) (weeklyCapacity (Fin (- 5)) (Fin 1))"
  by (simp add: schedule_unfold A_def)

text \<open>
  C3. Let \<open>item\<close> be any initiative in the processing order, \<open>st1\<close> the state when its
  turn comes, and \<open>(bw, remaining)\<close> the outcome of its placement loop. If \<open>remaining > 0\<close>
  the engine appends exactly one backlog entry at that point, and the entry is \<open>item\<close>
  itself, so it carries the original effort and the original week rather than the
  remainder; otherwise it appends nothing. Whatever follows in the backlog comes from
  later initiatives, and every fragment placed so far (those of \<open>item\<close> included) is
  still in the weeks of the final plan.
\<close>

theorem backlog_accounting:
  assumes "schedule initiatives timelineWeeks manDays = Inr fin"
    and "sort_initiatives initiatives = pre @ item # post"
  shows "\<exists>st1 bw remaining rest.
           run_items (safeWeeks timelineWeeks) (weeklyCapacity manDays timelineWeeks)
             \<lparr>byWeek = init_weeks 1 (safeWeeks timelineWeeks) Map.empty, backlog = []\<rparr> pre = Inr st1 \<and>
           place_loop (safeWeeks timelineWeeks) (weeklyCapacity manDays timelineWeeks) item
             (byWeek st1) (effortManDays item) (js_max (Fin 1) (week item)) = Inr (bw, remaining) \<and>
           backlog fin = backlog st1 @ (if js_lt (Fin 0) remaining then [item] else []) @ rest \<and>
           subseq rest post \<and>
           weeks_extend bw (byWeek fin)"
proof -
  let ?sw = "safeWeeks timelineWeeks" and ?cap = "weeklyCapacity manDays timelineWeeks"
  let ?st = "\<lparr>byWeek = init_weeks 1 ?sw Map.empty, backlog = []\<rparr>"
  from assms have "run_items ?sw ?cap ?st (pre @ item # post) = Inr fin"
    by (simp add: schedule_def Let_def)
  then obtain st1 st2 where
    r1: "run_items ?sw ?cap ?st pre = Inr st1" and
    pi: "place_item ?sw ?cap st1 item = Inr st2" and
    r2: "run_items ?sw ?cap st2 post = Inr fin"
    by (auto simp: run_items_append split: sum.splits)
  from place_item_byWeek [OF pi] obtain remaining where
    lp: "place_loop ?sw ?cap item (byWeek st1) (effortManDays item) (js_max (Fin 1) (week item))
           = Inr (byWeek st2, remaining)" and
    bl: "backlog st2 = (if js_lt (Fin 0) remaining then backlog st1 @ [item] else backlog st1)"
    by blast
  from run_items_backlog [OF r2] obtain rest where
    rest: "backlog fin = backlog st2 @ rest" "subseq rest post" by blast
  from bl rest(1) have "backlog fin = backlog st1 @ (if js_lt (Fin 0) remaining then [item] else []) @ rest"
    by simp
  with r1 lp rest(2) run_items_extend [OF r2] show ?thesis by blast
qed

theorem backlog_accounting_witness:
  fixes A B :: initiative
  defines "A \<equiv> \<lparr>id' = Fin 1, title = ''A'', effortManDays = Fin 7, week = Fin 1, okr = ''O'',
                   taskDependencies = [], teamDependencies = []\<rparr>"
    and "B \<equiv> \<lparr>id' = Fin 2, title = ''B'', effortManDays = Fin 4, week = Fin 1, okr = ''O'',
                   taskDependencies = [], teamDependencies = []\<rparr>"
  shows "schedule [B, A] (Fin 2) (Fin 10) =
           Inr \<lparr>byWeek = [1 \<mapsto> [A\<lparr>effortManDays := Fin 5, week := Fin 1\<rparr>],
                           2 \<mapsto> [A\<lparr>effortManDays := Fin 2, week := Fin 2\<rparr>,
                                  B\<lparr>effortManDays := Fin 3, week := Fin 2\<rparr>]],
                 backlog = [B]\<rparr> \<and>
         sort_initiatives [B, A] = [A] @ B # [] \<and>
         (\<exists>(st1::plan) bw rest.
            place_loop 2 (Fin 5) B (byWeek st1) (Fin 4) (Fin 1) = Inr (bw, Fin 1) \<and>
            [B] = backlog st1 @ [B] @ rest \<and>
            bw 2 = Some [A\<lparr>effortManDays := Fin 2, week := Fin 2\<rparr>,
                         B\<lparr>effortManDays := Fin 3, week := Fin 2\<rparr>])"
proof -
  let ?fin = "\<lparr>byWeek = [1 \<mapsto> [A\<lparr>effortManDays := Fin 5, week := Fin 1\<rparr>],
                           2 \<mapsto> [A\<lparr>effortManDays := Fin 2, week := Fin 2\<rparr>,
                                  B\<lparr>effortManDays := Fin 3, week := Fin 2\<rparr>]],
                 backlog = [B]\<rparr>"
  have h1: "schedule [B, A] (Fin 2) (Fin 10) = Inr ?fin"
    by (simp add: schedule_unfold A_def B_def)
  have h2: "sort_initiatives [B, A] = [A] @ B # []"
    by (simp add: schedule_unfold A_def B_def)
  from backlog_accounting [OF h1 h2] obtain st1 bw remaining rest where
    r1: "run_items 2 (Fin 5) \<lparr>byWeek = init_weeks 1 2 Map.empty, backlog = []\<rparr> [A] = Inr st1" and
    lp: "place_loop 2 (Fin 5) B (byWeek st1) (Fin 4) (Fin 1) = Inr (bw, remaining)" and
    bl: "[B] = backlog st1 @ (if js_lt (Fin 0) remaining then [B] else []) @ rest" and
    ex: "weeks_extend bw (byWeek ?fin)"
    by (auto simp: schedule_unfold A_def B_def)
  from r1 have st1: "st1 = \<lparr>byWeek = [1 \<mapsto> [A\<lparr>effortManDays := Fin 5, week := Fin 1\<rparr>],
                           2 \<mapsto> [A\<lparr>effortManDays := Fin 2, week := Fin 2\<rparr>]], backlog = []\<rparr>"
    by (simp add: schedule_unfold A_def)
  from lp have rm: "remaining = Fin 1" and
    bw2: "bw 2 = Some [A\<lparr>effortManDays := Fin 2, week := Fin 2\<rparr>, B\<lparr>effortManDays := Fin 3, week := Fin 2\<rparr>]"
    unfolding st1 by (auto simp: schedule_unfold A_def B_def)
  from bl rm have bl': "[B] = backlog st1 @ [B] @ rest" by simp
  from lp rm have lp': "place_loop 2 (Fin 5) B (byWeek st1) (Fin 4) (Fin 1) = Inr (bw, Fin 1)" by simp
  have ex3: "\<exists>(st1::plan) bw rest.
            place_loop 2 (Fin 5) B (byWeek st1) (Fin 4) (Fin 1) = Inr (bw, Fin 1) \<and>
            [B] = backlog st1 @ [B] @ rest \<and>
            bw 2 = Some [A\<lparr>effortManDays := Fin 2, week := Fin 2\<rparr>,
                         B\<lparr>effortManDays := Fin 3, week := Fin 2\<rparr>]"
    by (rule exI [of _ st1], rule exI [of _ bw], rule exI [of _ rest]) (intro conjI lp' bl' bw2)
  show ?thesis by (intro conjI h1 h2 ex3)
qed



text \<open>
  C5. With \<open>timelineWeeks = 2\<close> and \<open>manDays = 10\<close> the weekly capacity is 5. For the
  initiatives A (id 1, effort 7, week 1) and B (id 2, effort 4, week 1), whatever their
  other fields and in either input order, the engine returns week 1 = [A with effort 5],
  week 2 = [A with effort 2, B with effort 3] and backlog = [B as it was supplied, with
  effort 4 and week 1], and no other week.
\<close>

theorem worked_example:
  fixes A B :: initiative and ta tb oa ob :: string and da db ea eb :: "json list"
  defines "A \<equiv> \<lparr>id' = Fin 1, title = ta, effortManDays = Fin 7, week = Fin 1, okr = oa,
                   taskDependencies = da, teamDependencies = ea\<rparr>"
    and "B \<equiv> \<lparr>id' = Fin 2, title = tb, effortManDays = Fin 4, week = Fin 1, okr = ob,
                   taskDependencies = db, teamDependencies = eb\<rparr>"
  shows "weeklyCapacity (Fin 10) (Fin 2) = Fin 5 \<and>
         schedule [A, B] (Fin 2) (Fin 10) =
           Inr \<lparr>byWeek = [1 \<mapsto> [A\<lparr>effortManDays := Fin 5, week := Fin 1\<rparr>],
                           2 \<mapsto> [A\<lparr>effortManDays := Fin 2, week := Fin 2\<rparr>,
                                  B\<lparr>effortManDays := Fin 3, week := Fin 2\<rparr>]],
                 backlog = [B]\<rparr> \<and>
         schedule [B, A] (Fin 2) (Fin 10) = schedule [A, B] (Fin 2) (Fin 10)"
  unfolding A_def B_def by (simp add: schedule_unfold)

text \<open>
  C6. Whenever the engine returns a plan, the keys of its week mapping are exactly
  \<open>1, ..., \<lfloor>safeWeeks\<rfloor>\<close>, every fragment stored under a key carries that key as its
  week (so no fragment lies outside the range), and \<open>safeWeeks\<close> is \<open>timelineWeeks\<close> when
  that is finite and positive, and 1 otherwise (zero, negative, infinite, NaN).
\<close>

theorem week_completeness:
  assumes "schedule initiatives timelineWeeks manDays = Inr p"
  shows "dom (byWeek p) = rat_of_nat ` {1..nat \<lfloor>safeWeeks timelineWeeks\<rfloor>} \<and>
         (\<forall>q frs f. byWeek p q = Some frs \<longrightarrow> f \<in> set frs \<longrightarrow> week f = Fin q) \<and>
         safeWeeks timelineWeeks =
           (case timelineWeeks of Fin q \<Rightarrow> if 0 < q then q else 1 | _ \<Rightarrow> 1)"
proof -
  let ?sw = "safeWeeks timelineWeeks"
  let ?st = "\<lparr>byWeek = init_weeks 1 ?sw Map.empty, backlog = []\<rparr>"
  from assms have run: "run_items ?sw (weeklyCapacity manDays timelineWeeks) ?st
                          (sort_initiatives initiatives) = Inr p"
    by (simp add: schedule_def Let_def)
  have "dom (byWeek ?st) = week_keys ?sw"
    by (auto simp: init_weeks_start dom_def)
  with run_items_dom [OF run] have d: "dom (byWeek p) = week_keys ?sw" by simp
  have "frag_weeks (byWeek ?st)"
    by (simp add: frag_weeks_def init_weeks_start)
  from run_items_frag_weeks [OF run this] have f: "frag_weeks (byWeek p)" .
  show ?thesis using d f by (simp add: week_keys_def frag_weeks_def safeWeeks_cases)
qed

theorem week_completeness_witness:
  fixes A :: initiative and P :: plan
  defines "A \<equiv> \<lparr>id' = Fin 1, title = ''A'', effortManDays = Fin 7, week = Fin 1, okr = ''O'',
                   taskDependencies = [], teamDependencies = []\<rparr>"
    and "P \<equiv> \<lparr>byWeek = [1 \<mapsto> [A\<lparr>effortManDays := Fin 7, week := Fin 1\<rparr>]], backlog = []\<rparr>"
  shows "schedule [A] NaN (Fin 10) = Inr P \<and>
         dom (byWeek P) = rat_of_nat ` {1..nat \<lfloor>safeWeeks NaN\<rfloor>} \<and>
         safeWeeks NaN = 1 \<and> safeWeeks (Fin 0) = 1 \<and> safeWeeks (Fin (- 3)) = 1 \<and>
         safeWeeks (Fin 12) = 12"
proof -
  have h: "schedule [A] NaN (Fin 10) = Inr P"
    by (simp add: schedule_unfold A_def P_def)
  from week_completeness [OF h] h show ?thesis
    by (simp add: safeWeeks_def)
qed

text \<open>
  C7. For a list whose initiatives have finite \<open>week\<close> and \<open>id\<close> and pairwise distinct
  ids, every permutation of the list gives the same result of the engine (the same weeks
  and backlog, or the same error) for the same capacity inputs. Hence a drag of an item
  leaves the computed plan as it is, \<open>arrayMove\<close> returning a permutation of its argument.
\<close>

theorem permutation_invariance:
  assumes "\<forall>i\<in>set xs. finite_keys i" and "distinct (map id' xs)"
  shows "(mset ys = mset xs \<longrightarrow> schedule ys tw md = schedule xs tw md) \<and>
         ((\<forall>from to. mset (arrayMove xs from to) = mset xs) \<longrightarrow>
            schedule (onDragEnd arrayMove active_id over xs) tw md = schedule xs tw md)"
proof (intro conjI impI)
  have perm: "schedule zs tw md = schedule xs tw md" if "mset zs = mset xs" for zs
  proof -
    from that have "sort_initiatives xs = sort_initiatives zs"
      by (intro sort_initiatives_permutation_invariant assms) simp
    then show ?thesis by (simp add: schedule_def)
  qed
  {
    assume "mset ys = mset xs"
    then show "schedule ys tw md = schedule xs tw md" by (rule perm)
  next
    assume m: "\<forall>from to. mset (arrayMove xs from to) = mset xs"
    show "schedule (onDragEnd arrayMove active_id over xs) tw md = schedule xs tw md"
    proof (cases over)
      case None
      then show ?thesis by (simp add: onDragEnd_def)
    next
      case (Some o_id)
      show ?thesis
      proof (cases "js_strict_eq active_id o_id")
        case True
        with Some show ?thesis by (simp add: onDragEnd_def)
      next
        case False
        with Some m have "mset (onDragEnd arrayMove active_id over xs) = mset xs"
          by (simp add: onDragEnd_def Let_def)
        then show ?thesis by (rule perm)
      qed
    qed
  }
qed

theorem permutation_invariance_witness:
  fixes A B :: initiative
  defines "A \<equiv> \<lparr>id' = Fin 1, title = ''A'', effortManDays = Fin 7, week = Fin 1, okr = ''O'',
                   taskDependencies = [], teamDependencies = []\<rparr>"
    and "B \<equiv> \<lparr>id' = Fin 2, title = ''B'', effortManDays = Fin 4, week = Fin 1, okr = ''O'',
                   taskDependencies = [], teamDependencies = []\<rparr>"
  shows "finite_keys A \<and> finite_keys B \<and> distinct (map id' [A, B]) \<and> mset [B, A] = mset [A, B] \<and>
         schedule [B, A] (Fin 2) (Fin 10) = schedule [A, B] (Fin 2) (Fin 10) \<and>
         (\<forall>from to. mset ((\<lambda>xs (i::int) (j::int). rev xs) [A, B] from to) = mset [A, B]) \<and>
         onDragEnd (\<lambda>xs i j. rev xs) (Fin 1) (Some (Fin 2)) [A, B] = [B, A] \<and>
         schedule (onDragEnd (\<lambda>xs i j. rev xs) (Fin 1) (Some (Fin 2)) [A, B]) (Fin 2) (Fin 10)
           = schedule [A, B] (Fin 2) (Fin 10)"
proof -
  have f: "\<forall>i\<in>set [A, B]. finite_keys i" by (simp add: finite_keys_def A_def B_def)
  have d: "distinct (map id' [A, B])" by (simp add: A_def B_def)
  have m: "mset [B, A] = mset [A, B]" by simp
  have p: "\<forall>from to. mset ((\<lambda>xs (i::int) (j::int). rev xs) [A, B] from to) = mset [A, B]" by simp
  have o: "onDragEnd (\<lambda>xs i j. rev xs) (Fin 1) (Some (Fin 2)) [A, B] = [B, A]"
    by (simp add: onDragEnd_def js_strict_eq_def)
  from permutation_invariance [OF f d, where ys = "[B, A]" and tw = "Fin 2" and md = "Fin 10"
      and arrayMove = "\<lambda>xs i j. rev xs" and active_id = "Fin 1" and over = "Some (Fin 2)"] m p o f d
  show ?thesis by simp
qed

text \<open>
  C8. The backend normaliser does not round: for an element with \<open>effortManDays: 2.5\<close>
  it returns 2.5, where the frontend normaliser returns 3.
\<close>

theorem backend_normalizer_does_not_round:
  "normalizeInitiatives rt (JArr [JObj [(''id'', JNum (Fin 1)), (''effortManDays'', JNum (Fin (5 / 2)))]]) =
     Inr [\<lparr>id' = Fin 1, title = ''Task 1'', effortManDays = Fin (5 / 2), week = Fin 1,
           okr = ''Unassigned'', taskDependencies = [], teamDependencies = []\<rparr>] \<and>
   normaliseInitiatives rt (JArr [JObj [(''id'', JNum (Fin 1)), (''effortManDays'', JNum (Fin (5 / 2)))]]) =
     Inr [\<lparr>id' = Fin 1, title = ''Task 1'', effortManDays = Fin 3, week = Fin 1,
           okr = ''Unassigned'', taskDependencies = [], teamDependencies = []\<rparr>]"
  by (simp add: normalizeInitiatives_def normalizeInitiative_def normaliseInitiatives_def
      normaliseInitiative_def or_default_def member_def Number_def String_def js_or_def
      decimal.simps digit_def)

text \<open>
  C9. When \<open>okrs\<close> is not a non-empty array the generate handler, and when \<open>command\<close> is
  empty, missing or otherwise falsy the modify handler, sends nothing to the external
  producer and responds with an error message and no initiative list. The status is 400
  with the validation message when the body is an object whose \<open>context\<close> and
  \<open>constraints\<close> can be destructured (absent or not \<open>null\<close>), and 500 otherwise.
\<close>

theorem producer_validation:
  "(\<not> (\<exists>x xs. member body ''okrs'' = JArr (x # xs)) \<longrightarrow>
      snd (generate_roadmap rt body) = [] \<and>
      (\<exists>e. payload (fst (generate_roadmap rt body)) = Inl e) \<and>
      (if body \<noteq> JNull \<and> body \<noteq> JUndefined \<and> destructure_settings body = Inr ()
       then fst (generate_roadmap rt body) =
              \<lparr>status = 400, payload = Inl (Error ''At least one OKR is required'')\<rparr>
       else status (fst (generate_roadmap rt body)) = 500)) \<and>
   (\<not> truthy (member body ''command'') \<longrightarrow>
      snd (modify_roadmap rt body) = [] \<and>
      (\<exists>e. payload (fst (modify_roadmap rt body)) = Inl e) \<and>
      (if body \<noteq> JNull \<and> body \<noteq> JUndefined \<and> destructure_settings body = Inr ()
       then fst (modify_roadmap rt body) =
              \<lparr>status = 400, payload = Inl (Error ''Command is required'')\<rparr>
       else status (fst (modify_roadmap rt body)) = 500))"
  using generate_roadmap_rejects modify_roadmap_rejects by blast

text \<open>
  The status is not always 400: a body with an empty \<open>okrs\<close> and \<open>context: null\<close>, or with
  an empty \<open>command\<close> and \<open>constraints: null\<close>, is answered with status 500, because the
  handlers destructure \<open>context\<close> and \<open>constraints\<close> before they validate.
\<close>

theorem producer_validation_counterexample:
  fixes rt :: runtime
  defines "rt \<equiv> \<lparr>clock = \<lambda>idx. 0, text_number = \<lambda>v. NaN, text_of = \<lambda>v. [],
                    parse_cleaned = \<lambda>s. None, generate_prompt = \<lambda>b. ''generate'',
                    modify_prompt = \<lambda>b. ''modify'', call_producer = \<lambda>p. Inr JNull\<rparr>"
  shows "member (JObj [(''okrs'', JArr []), (''context'', JNull)]) ''okrs'' = JArr [] \<and>
         generate_roadmap rt (JObj [(''okrs'', JArr []), (''context'', JNull)])
           = (\<lparr>status = 500, payload = Inl TypeError\<rparr>, []) \<and>
         member (JObj [(''command'', JStr []), (''constraints'', JNull)]) ''command'' = JStr [] \<and>
         modify_roadmap rt (JObj [(''command'', JStr []), (''constraints'', JNull)])
           = (\<lparr>status = 500, payload = Inl TypeError\<rparr>, [])"
  by (simp add: rt_def generate_roadmap_def modify_roadmap_def member_def destructure_settings_def
      or_default_def on_error_def)

theorem producer_validation_witness:
  fixes rt :: runtime
  defines "rt \<equiv> \<lparr>clock = \<lambda>idx. 0, text_number = \<lambda>v. NaN, text_of = \<lambda>v. [],
                    parse_cleaned = \<lambda>s. None, generate_prompt = \<lambda>b. ''generate'',
                    modify_prompt = \<lambda>b. ''modify'', call_producer = \<lambda>p. Inr JNull\<rparr>"
  shows "member (JObj [(''okrs'', JArr []), (''command'', JStr [])]) ''okrs'' = JArr [] \<and>
         generate_roadmap rt (JObj [(''okrs'', JArr []), (''command'', JStr [])])
           = (\<lparr>status = 400, payload = Inl (Error ''At least one OKR is required'')\<rparr>, []) \<and>
         \<not> truthy (member (JObj [(''okrs'', JArr []), (''command'', JStr [])]) ''command'') \<and>
         modify_roadmap rt (JObj [(''okrs'', JArr []), (''command'', JStr [])])
           = (\<lparr>status = 400, payload = Inl (Error ''Command is required'')\<rparr>, [])"
proof -
  let ?body = "JObj [(''okrs'', JArr []), (''command'', JStr [])]"
  have h1: "\<not> (\<exists>x xs. member ?body ''okrs'' = JArr (x # xs))" by (simp add: member_def)
  have h2: "\<not> truthy (member ?body ''command'')" by (simp add: member_def)
  have h3: "?body \<noteq> JNull \<and> ?body \<noteq> JUndefined \<and> destructure_settings ?body = Inr ()"
    by (simp add: destructure_settings_def member_def or_default_def)
  from producer_validation [of ?body rt] h1 h2 h3 show ?thesis
    by (simp add: member_def prod_eq_iff)
qed





end
